theory Spec2Isabelle
  imports Main
begin

section \<open>Data model\<close>

text \<open>
  The searched text and the pattern are Python \<open>str\<close> values: finite sequences of Unicode
  code points, compared symbol by symbol. A symbol is modelled by its code point, so that
  \<open>ord\<close> is the embedding of that number into Python's unbounded integers.
  Every index the functions compute is non-negative, so indices are natural numbers and a
  read \<open>xs[k]\<close> raises \<open>IndexError\<close> exactly when \<open>k\<close> is not below \<open>len(xs)\<close>.
  A result is \<open>Inr\<close> of the returned integer or \<open>Inl\<close> of the exception raised; a
  \<open>while\<close> loop whose termination depends on the table it reads is a partial function,
  with \<open>None\<close> for a loop that never returns.
\<close>

type_synonym symbol = nat
type_synonym str = "symbol list"

datatype py_error = IndexError | ValueError

definition ord :: "symbol \<Rightarrow> int" where
  "ord c = int c"

section \<open>Prefix table: \<open>compute_lps\<close>\<close>

text \<open>
  One iteration of the \<open>while i < len(pattern)\<close> loop of \<open>compute_lps\<close>, from the state
  \<open>(lps, length, i)\<close>; the loop guard has already established \<open>i < len(pattern)\<close>.
  The local variable \<open>length\<close> is written \<open>len\<close>.
\<close>

definition lps_body :: "str \<Rightarrow> nat list \<Rightarrow> nat \<Rightarrow> nat \<Rightarrow> py_error + (nat list \<times> nat \<times> nat)" where
  "lps_body pattern lps len i =
     (if len < length pattern then
        if pattern ! i = pattern ! len then
          (if i < length lps then Inr (lps[i := len + 1], len + 1, i + 1) else Inl IndexError)
        else if len \<noteq> 0 then
          (if len - 1 < length lps then Inr (lps, lps ! (len - 1), i) else Inl IndexError)
        else
          (if i < length lps then Inr (lps[i := 0], len, i + 1) else Inl IndexError)
      else Inl IndexError)"

partial_function (option) lps_loop :: "str \<Rightarrow> nat list \<Rightarrow> nat \<Rightarrow> nat \<Rightarrow> (py_error + nat list) option" where
  "lps_loop pattern lps len i =
     (if i < length pattern then
        (case lps_body pattern lps len i of
           Inl e \<Rightarrow> Some (Inl e)
         | Inr (lps', len', i') \<Rightarrow> lps_loop pattern lps' len' i')
      else Some (Inr lps))"

declare lps_loop.simps [code]

definition compute_lps :: "str \<Rightarrow> (py_error + nat list) option" where
  "compute_lps pattern = lps_loop pattern (replicate (length pattern) 0) 0 1"

section \<open>Knuth-Morris-Pratt: \<open>kmp_search\<close>\<close>

text \<open>
  One iteration of the scan loop \<open>while i < N\<close> from the cursors \<open>(i, j)\<close>: either the
  function leaves the loop (\<open>Inl\<close>: a returned index or a raised exception) or the loop
  goes on with new cursors (\<open>Inr\<close>).
\<close>

definition kmp_body :: "str \<Rightarrow> str \<Rightarrow> nat list \<Rightarrow> nat \<Rightarrow> nat \<Rightarrow> (py_error + int) + (nat \<times> nat)" where
  "kmp_body main_string pattern lps i j =
     (if j < length pattern then
        if pattern ! j = main_string ! i then
          (if j + 1 = length pattern then Inl (Inr (int (i + 1) - int (j + 1)))
           else Inr (i + 1, j + 1))
        else if j \<noteq> 0 then
          (if j - 1 < length lps then Inr (i, lps ! (j - 1)) else Inl (Inl IndexError))
        else Inr (i + 1, j)
      else Inl (Inl IndexError))"

text \<open>The guard of the scan loop, \<open>i < N\<close>.\<close>

definition kmp_guard :: "str \<Rightarrow> nat \<Rightarrow> bool" where
  "kmp_guard main_string i \<longleftrightarrow> i < length main_string"

partial_function (option) kmp_loop :: "str \<Rightarrow> str \<Rightarrow> nat list \<Rightarrow> nat \<Rightarrow> nat \<Rightarrow> (py_error + int) option" where
  "kmp_loop main_string pattern lps i j =
     (if kmp_guard main_string i then
        (case kmp_body main_string pattern lps i j of
           Inl r \<Rightarrow> Some r
         | Inr (i', j') \<Rightarrow> kmp_loop main_string pattern lps i' j')
      else Some (Inr (- 1)))"

declare kmp_loop.simps [code]

definition kmp_search :: "str \<Rightarrow> str \<Rightarrow> (py_error + int) option" where
  "kmp_search main_string pattern =
     (case compute_lps pattern of
        None \<Rightarrow> None
      | Some (Inl e) \<Rightarrow> Some (Inl e)
      | Some (Inr lps) \<Rightarrow> kmp_loop main_string pattern lps 0 0)"

section \<open>Boyer-Moore with the bad-character rule: \<open>boyer_moore_search\<close>\<close>

text \<open>
  The shift table is a Python \<open>dict\<close> from symbols to distances. The loop of
  \<open>build_shift_table\<close> runs over \<open>enumerate(pattern[:-1])\<close>, where \<open>i\<close> stays below
  \<open>length - 1\<close>, so \<open>length - i - 1\<close> is the same number in the naturals.
  \<open>pattern[-1]\<close> raises \<open>IndexError\<close> on the empty pattern.
\<close>

type_synonym shift_table = "symbol \<rightharpoonup> nat"

fun shift_loop :: "nat \<Rightarrow> nat \<Rightarrow> str \<Rightarrow> shift_table \<Rightarrow> shift_table" where
  "shift_loop len i [] table = table"
| "shift_loop len i (char # rest) table = shift_loop len (i + 1) rest (table(char \<mapsto> len - i - 1))"

definition setdefault :: "shift_table \<Rightarrow> symbol \<Rightarrow> nat \<Rightarrow> shift_table" where
  "setdefault table key d = (case table key of None \<Rightarrow> table(key \<mapsto> d) | Some _ \<Rightarrow> table)"

definition build_shift_table :: "str \<Rightarrow> py_error + shift_table" where
  "build_shift_table pattern =
     (let table = shift_loop (length pattern) 0 (butlast pattern) Map.empty
      in if pattern = [] then Inl IndexError
         else Inr (setdefault table (last pattern) (length pattern)))"

text \<open>\<open>shift_table.get(key, d)\<close>.\<close>

definition table_get :: "shift_table \<Rightarrow> symbol \<Rightarrow> nat \<Rightarrow> nat" where
  "table_get table key d = (case table key of None \<Rightarrow> d | Some v \<Rightarrow> v)"

text \<open>
  The inner loop \<open>while j >= 0 and text[i + j] == pattern[j]: j -= 1\<close>; it returns the
  value of \<open>j\<close> at which it stops.
\<close>

function bm_inner :: "str \<Rightarrow> str \<Rightarrow> nat \<Rightarrow> int \<Rightarrow> py_error + int" where
  "bm_inner text pattern i j =
     (if 0 \<le> j then
        (if i + nat j < length text \<and> nat j < length pattern then
           (if text ! (i + nat j) = pattern ! nat j then bm_inner text pattern i (j - 1)
            else Inr j)
         else Inl IndexError)
      else Inr j)"
  by pat_completeness auto
termination
  by (relation "measure (\<lambda>(text, pattern, i, j). nat (j + 1))") auto

declare bm_inner.simps [simp del]

text \<open>The guard of the outer loop, \<open>i <= text_length - pattern_length\<close>, over the integers.\<close>

definition bm_guard :: "str \<Rightarrow> str \<Rightarrow> nat \<Rightarrow> bool" where
  "bm_guard text pattern i \<longleftrightarrow> int i \<le> int (length text) - int (length pattern)"

text \<open>
  One iteration of the outer loop: \<open>Inl\<close> leaves the function, \<open>Inr\<close> is the next window
  start. The last line is reached with \<open>j \<ge> 0\<close> only, hence with a non-empty pattern, where
  \<open>i + pattern_length - 1\<close> is a natural number.
\<close>

definition bm_body :: "str \<Rightarrow> str \<Rightarrow> shift_table \<Rightarrow> nat \<Rightarrow> (py_error + int) + nat" where
  "bm_body text pattern shift_table i =
     (case bm_inner text pattern i (int (length pattern) - 1) of
        Inl e \<Rightarrow> Inl (Inl e)
      | Inr j \<Rightarrow>
          if j < 0 then Inl (Inr (int i))
          else if i + length pattern - 1 < length text
          then Inr (i + table_get shift_table (text ! (i + length pattern - 1)) (length pattern))
          else Inl (Inl IndexError))"

partial_function (option) bm_loop :: "str \<Rightarrow> str \<Rightarrow> shift_table \<Rightarrow> nat \<Rightarrow> (py_error + int) option" where
  "bm_loop text pattern shift_table i =
     (if bm_guard text pattern i then
        (case bm_body text pattern shift_table i of
           Inl r \<Rightarrow> Some r
         | Inr i' \<Rightarrow> bm_loop text pattern shift_table i')
      else Some (Inr (- 1)))"

declare bm_loop.simps [code]

definition boyer_moore_search :: "str \<Rightarrow> str \<Rightarrow> (py_error + int) option" where
  "boyer_moore_search text pattern =
     (case build_shift_table pattern of
        Inl e \<Rightarrow> Some (Inl e)
      | Inr shift_table \<Rightarrow> bm_loop text pattern shift_table 0)"

section \<open>Rabin-Karp: \<open>polynomial_hash\<close> and \<open>rabin_karp_search\<close>\<close>

text \<open>
  The loop of \<open>polynomial_hash\<close> over \<open>enumerate(s)\<close>, with \<open>n = len(s)\<close>; \<open>i\<close> stays
  below \<open>n\<close>, so the exponent \<open>n - i - 1\<close> is a natural number. Python's \<open>%\<close> takes the
  sign of the modulus, as \<open>mod\<close> on \<open>int\<close> does.
\<close>

fun hash_loop :: "int \<Rightarrow> int \<Rightarrow> nat \<Rightarrow> nat \<Rightarrow> str \<Rightarrow> int \<Rightarrow> int" where
  "hash_loop base modulus n i [] hash_value = hash_value"
| "hash_loop base modulus n i (char # rest) hash_value =
     hash_loop base modulus n (i + 1) rest
       ((hash_value + ord char * (base ^ (n - i - 1) mod modulus)) mod modulus)"

definition polynomial_hash :: "str \<Rightarrow> int \<Rightarrow> int \<Rightarrow> int" where
  "polynomial_hash s base modulus = hash_loop base modulus (length s) 0 s 0"

text \<open>
  The three-argument \<open>pow(base, exp, modulus)\<close> for a positive modulus. With a negative
  exponent Python (3.8 and later) takes the inverse of the base modulo the modulus, the one
  in \<open>[0, modulus)\<close>, and raises \<open>ValueError\<close> when the base is not invertible.
\<close>

definition pow_mod :: "int \<Rightarrow> int \<Rightarrow> int \<Rightarrow> py_error + int" where
  "pow_mod base exp modulus =
     (if 0 \<le> exp then Inr (base ^ nat exp mod modulus)
      else (case find (\<lambda>x. base * x mod modulus = 1 mod modulus) (map int [0..<nat modulus]) of
              None \<Rightarrow> Inl ValueError
            | Some b \<Rightarrow> Inr (b ^ nat (- exp) mod modulus)))"

text \<open>The slice \<open>s[a:a + k]\<close> for non-negative \<open>a\<close>, which never raises.\<close>

definition slice :: "str \<Rightarrow> nat \<Rightarrow> nat \<Rightarrow> str" where
  "slice s a k = take k (drop a s)"

text \<open>The guard of \<open>for i in range(main_string_length - substring_length + 1)\<close>.\<close>

definition rk_guard :: "str \<Rightarrow> str \<Rightarrow> nat \<Rightarrow> bool" where
  "rk_guard main_string substring i \<longleftrightarrow>
     int i < int (length main_string) - int (length substring) + 1"

text \<open>The two assignments that roll the hash from the window at \<open>i\<close> to the one at \<open>i + 1\<close>.\<close>

definition rk_roll :: "str \<Rightarrow> nat \<Rightarrow> int \<Rightarrow> int \<Rightarrow> int \<Rightarrow> nat \<Rightarrow> int \<Rightarrow> int" where
  "rk_roll main_string substring_length base modulus h_multiplier i current_slice_hash =
     (let current_slice_hash = (current_slice_hash - ord (main_string ! i) * h_multiplier) mod modulus
      in (current_slice_hash * base + ord (main_string ! (i + substring_length))) mod modulus)"

function rk_loop :: "str \<Rightarrow> str \<Rightarrow> int \<Rightarrow> int \<Rightarrow> int \<Rightarrow> int \<Rightarrow> nat \<Rightarrow> int \<Rightarrow> int" where
  "rk_loop main_string substring base modulus substring_hash h_multiplier i current_slice_hash =
     (if rk_guard main_string substring i then
        if substring_hash = current_slice_hash
           \<and> slice main_string i (length substring) = substring
        then int i
        else if int i < int (length main_string) - int (length substring)
        then rk_loop main_string substring base modulus substring_hash h_multiplier (i + 1)
               (rk_roll main_string (length substring) base modulus h_multiplier i current_slice_hash)
        else rk_loop main_string substring base modulus substring_hash h_multiplier (i + 1)
               current_slice_hash
      else - 1)"
  by pat_completeness auto
termination
  by (relation "measure (\<lambda>(main_string, substring, base, modulus, sh, hm, i, cur).
        nat (int (length main_string) - int (length substring) + 1 - int i))")
     (auto simp: rk_guard_def)

declare rk_loop.simps [simp del]

definition rabin_karp_search :: "str \<Rightarrow> str \<Rightarrow> py_error + int" where
  "rabin_karp_search main_string substring =
     (let substring_length = length substring;
          base = 256;
          modulus = 101;
          substring_hash = polynomial_hash substring base modulus;
          current_slice_hash = polynomial_hash (slice main_string 0 substring_length) base modulus
      in case pow_mod base (int substring_length - 1) modulus of
           Inl e \<Rightarrow> Inl e
         | Inr h_multiplier \<Rightarrow>
             Inr (rk_loop main_string substring base modulus substring_hash h_multiplier 0
                    current_slice_hash))"

section \<open>Specification notions\<close>

text \<open>
  The pattern occurs in the text at the zero-based index \<open>s\<close>: the window of pattern length
  that starts at \<open>s\<close> lies inside the text and equals the pattern symbol for symbol.
\<close>

definition occurs_at :: "str \<Rightarrow> str \<Rightarrow> nat \<Rightarrow> bool" where
  "occurs_at text pattern s \<longleftrightarrow>
     s + length pattern \<le> length text \<and> slice text s (length pattern) = pattern"

text \<open>
  The result every matcher documents: the index of the first occurrence, or \<open>-1\<close> when the
  pattern does not occur.
\<close>

definition first_match :: "str \<Rightarrow> str \<Rightarrow> int \<Rightarrow> bool" where
  "first_match text pattern r \<longleftrightarrow>
     (\<exists>s. r = int s \<and> occurs_at text pattern s \<and> (\<forall>s'<s. \<not> occurs_at text pattern s'))
     \<or> (r = - 1 \<and> (\<forall>s. \<not> occurs_at text pattern s))"




text \<open>The polynomial whose value modulo the modulus \<open>polynomial_hash\<close> computes.\<close>

fun poly_value :: "int \<Rightarrow> str \<Rightarrow> int" where
  "poly_value base [] = 0"
| "poly_value base (char # rest) = ord char * base ^ length rest + poly_value base rest"

text \<open>
  \<open>k\<close> is the length of a proper prefix of \<open>w\<close> that is also a suffix of \<open>w\<close>, and the
  longest such length.
\<close>

definition border :: "str \<Rightarrow> nat \<Rightarrow> bool" where
  "border w k \<longleftrightarrow> k < length w \<and> take k w = drop (length w - k) w"

definition longest_border :: "str \<Rightarrow> nat \<Rightarrow> bool" where
  "longest_border w k \<longleftrightarrow> border w k \<and> (\<forall>k'. border w k' \<longrightarrow> k' \<le> k)"

text \<open>The same for the prefix of length \<open>n\<close> of a pattern, symbol by symbol.\<close>

definition prefix_border :: "str \<Rightarrow> nat \<Rightarrow> nat \<Rightarrow> bool" where
  "prefix_border p n k \<longleftrightarrow> k < n \<and> (\<forall>u<k. p ! u = p ! (n - k + u))"

text \<open>
  The invariant of the loop of \<open>compute_lps\<close>: the entries below \<open>i\<close> are final,
  \<open>len\<close> is a border of the prefix of length \<open>i\<close>, and no longer border of it can be
  extended by the symbol at \<open>i\<close>.
\<close>

definition lps_inv :: "str \<Rightarrow> nat list \<Rightarrow> nat \<Rightarrow> nat \<Rightarrow> bool" where
  "lps_inv p lps len i \<longleftrightarrow>
     length lps = length p \<and> 1 \<le> i \<and> i \<le> length p \<and> prefix_border p i len
     \<and> (\<forall>k<i. prefix_border p (Suc k) (lps ! k)
               \<and> (\<forall>b. prefix_border p (Suc k) b \<longrightarrow> b \<le> lps ! k))
     \<and> (i < length p \<longrightarrow> (\<forall>b. prefix_border p i b \<and> len < b \<longrightarrow> p ! b \<noteq> p ! i))"

text \<open>
  The invariant of the scan loop of \<open>kmp_search\<close>: the last \<open>j\<close> symbols read agree
  with the first \<open>j\<close> symbols of the pattern and no occurrence starts before \<open>i - j\<close>.
\<close>

definition kmp_inv :: "str \<Rightarrow> str \<Rightarrow> nat \<Rightarrow> nat \<Rightarrow> bool" where
  "kmp_inv t p i j \<longleftrightarrow>
     j \<le> i \<and> i \<le> length t \<and> j < length p
     \<and> (\<forall>k<j. t ! (i - j + k) = p ! k)
     \<and> (\<forall>s<i - j. \<not> occurs_at t p s)"

text \<open>A correct prefix table for the pattern.\<close>

definition lps_table :: "str \<Rightarrow> nat list \<Rightarrow> bool" where
  "lps_table p lps \<longleftrightarrow>
     length lps = length p
     \<and> (\<forall>k<length p. prefix_border p (Suc k) (lps ! k)
           \<and> (\<forall>b. prefix_border p (Suc k) b \<longrightarrow> b \<le> lps ! k))"

section \<open>Rolling hash and Rabin-Karp\<close>

lemma mod_mult_add_right:
  "(a + c * (x mod m)) mod m = (a + c * x) mod (m::int)"
  by (metis mod_add_right_eq mod_mult_right_eq)

lemma mod_roll2:
  "((a + w - c * (x mod m)) * b + d) mod m = ((w + a - c * x) * b + d) mod (m::int)"
proof -
  have "(a + w - c * (x mod m)) mod m = (w + a - c * x) mod m"
    by (metis add.commute mod_diff_right_eq mod_mult_right_eq)
  then show ?thesis
    by (metis mod_add_left_eq mod_mult_left_eq)
qed

lemma mod_roll:
  "(((a + w) mod m - a' ) mod m * b + d) mod m = ((a + w - a') * b + d) mod (m::int)"
  by (metis mod_add_left_eq mod_diff_left_eq mod_mult_left_eq)

lemma hash_loop_mod:
  "n = i + length s \<Longrightarrow>
   hash_loop base modulus n i s h mod modulus = (h + poly_value base s) mod modulus"
proof (induction s arbitrary: i h)
  case Nil
  then show ?case by simp
next
  case (Cons c rest)
  have e: "n - i - 1 = length rest" using Cons.prems by simp
  have "hash_loop base modulus n i (c # rest) h mod modulus
        = ((h + ord c * (base ^ length rest mod modulus)) mod modulus + poly_value base rest) mod modulus"
    using Cons.IH [of "i + 1"] Cons.prems by (simp add: e)
  also have "\<dots> = ((h + poly_value base rest) + ord c * (base ^ length rest mod modulus)) mod modulus"
    by (simp add: mod_simps ac_simps)
  also have "\<dots> = ((h + poly_value base rest) + ord c * base ^ length rest) mod modulus"
    by (rule mod_mult_add_right)
  finally show ?case by (simp add: ac_simps)
qed

lemma hash_loop_range:
  "0 < modulus \<Longrightarrow> 0 \<le> h \<Longrightarrow> h < modulus \<Longrightarrow>
   0 \<le> hash_loop base modulus n i s h \<and> hash_loop base modulus n i s h < modulus"
  by (induction s arbitrary: i h) simp_all

lemma polynomial_hash_range:
  "0 < modulus \<Longrightarrow> 0 \<le> polynomial_hash s base modulus \<and> polynomial_hash s base modulus < modulus"
  unfolding polynomial_hash_def by (rule hash_loop_range) simp_all

lemma polynomial_hash_value:
  assumes "0 < modulus"
  shows "polynomial_hash s base modulus = poly_value base s mod modulus"
proof -
  have "polynomial_hash s base modulus mod modulus = polynomial_hash s base modulus"
    using polynomial_hash_range [OF assms, of s base] by simp
  moreover have "polynomial_hash s base modulus mod modulus = (0 + poly_value base s) mod modulus"
    unfolding polynomial_hash_def by (rule hash_loop_mod) simp
  ultimately show ?thesis by simp
qed

lemma poly_value_snoc: "poly_value base (s @ [d]) = poly_value base s * base + ord d"
  by (induction s) (simp_all add: algebra_simps)

lemma slice_head:
  "i + k < length s \<Longrightarrow> slice s i (Suc k) = s ! i # slice s (Suc i) k"
  unfolding slice_def by (simp add: Cons_nth_drop_Suc [symmetric])

lemma slice_last:
  "i + k < length s \<Longrightarrow> slice s i (Suc k) = slice s i k @ [s ! (i + k)]"
  unfolding slice_def by (simp add: take_Suc_conv_app_nth)

lemma length_slice: "i + k \<le> length s \<Longrightarrow> length (slice s i k) = k"
  unfolding slice_def by simp

lemma rk_roll_hash:
  assumes p: "0 < modulus" and m: "0 < m" and i: "i + m < length s"
    and hm: "h_multiplier = base ^ (m - 1) mod modulus"
  shows "rk_roll s m base modulus h_multiplier i (polynomial_hash (slice s i m) base modulus)
         = polynomial_hash (slice s (i + 1) m) base modulus"
proof -
  obtain k where k: "m = Suc k" using m by (cases m) auto
  let ?w = "slice s (Suc i) k"
  have old: "slice s i (Suc k) = s ! i # ?w" using i k by (simp add: slice_head)
  have new: "slice s (Suc i) (Suc k) = ?w @ [s ! (i + m)]"
    using i k slice_last [of "Suc i" k s] by simp
  have lw: "length ?w = k" using i k by (simp add: length_slice)
  have "rk_roll s m base modulus h_multiplier i (polynomial_hash (slice s i m) base modulus)
        = (((ord (s ! i) * base ^ k + poly_value base ?w) mod modulus
              - ord (s ! i) * (base ^ k mod modulus)) mod modulus * base
            + ord (s ! (i + m))) mod modulus"
    by (simp add: rk_roll_def polynomial_hash_value [OF p] old hm k lw)
  also have "\<dots> = ((ord (s ! i) * base ^ k + poly_value base ?w
              - ord (s ! i) * (base ^ k mod modulus)) * base
            + ord (s ! (i + m))) mod modulus"
    by (rule mod_roll)
  also have "\<dots> = ((poly_value base ?w + ord (s ! i) * base ^ k
              - ord (s ! i) * base ^ k) * base
            + ord (s ! (i + m))) mod modulus"
    by (rule mod_roll2)
  also have "\<dots> = polynomial_hash (slice s (i + 1) m) base modulus"
    by (simp add: polynomial_hash_value [OF p] new poly_value_snoc k)
  finally show ?thesis .
qed

lemma rk_loop_sound:
  "rk_loop t p b m sh hm i cur = r \<Longrightarrow> 0 \<le> r \<Longrightarrow> slice t (nat r) (length p) = p"
proof (induction t p b m sh hm i cur rule: rk_loop.induct)
  case (1 t p b m sh hm i cur)
  note unfold = rk_loop.simps [of t p b m sh hm i cur]
  show ?case
  proof (cases "rk_guard t p i")
    case False
    with "1.prems" unfold show ?thesis by simp
  next
    case g: True
    show ?thesis
    proof (cases "sh = cur \<and> slice t i (length p) = p")
      case True
      with g "1.prems" unfold show ?thesis by auto
    next
      case f: False
      show ?thesis
      proof (cases "int i < int (length t) - int (length p)")
        case True
        with g f "1.prems" unfold "1.IH"(1) show ?thesis by auto
      next
        case False
        with g f "1.prems" unfold "1.IH"(2) show ?thesis by auto
      qed
    qed
  qed
qed

lemma pow_mod_nonneg: "0 < m \<Longrightarrow> pow_mod b (int m - 1) p = Inr (b ^ (m - 1) mod p)"
  by (simp add: pow_mod_def nat_diff_distrib')

lemma occurs_at_bound: "occurs_at t p s \<Longrightarrow> s + length p \<le> length t"
  by (simp add: occurs_at_def)

lemma rk_loop_first_match:
  "0 < modulus \<Longrightarrow> p \<noteq> [] \<Longrightarrow>
   sh = polynomial_hash p base modulus \<Longrightarrow>
   hm = base ^ (length p - 1) mod modulus \<Longrightarrow>
   rk_guard t p i \<longrightarrow> cur = polynomial_hash (slice t i (length p)) base modulus \<Longrightarrow>
   \<forall>s<i. \<not> occurs_at t p s \<Longrightarrow>
   first_match t p (rk_loop t p base modulus sh hm i cur)"
proof (induction t p base modulus sh hm i cur rule: rk_loop.induct)
  case (1 t p b m sh hm i cur)
  note pos = "1.prems"(1) and ne = "1.prems"(2) and sh = "1.prems"(3) and hm = "1.prems"(4)
    and inv = "1.prems"(5) and before = "1.prems"(6)
  note unfold = rk_loop.simps [of t p b m sh hm i cur]
  show ?case
  proof (cases "rk_guard t p i")
    case False
    have "\<not> occurs_at t p s" for s
    proof
      assume o: "occurs_at t p s"
      then have "s + length p \<le> length t" by (rule occurs_at_bound)
      with False have "s < i" by (simp add: rk_guard_def)
      with before o show False by simp
    qed
    with False unfold show ?thesis by (simp add: first_match_def)
  next
    case g: True
    then have cur: "cur = polynomial_hash (slice t i (length p)) b m" using inv by simp
    from g have bound: "i + length p \<le> length t" by (simp add: rk_guard_def)
    show ?thesis
    proof (cases "slice t i (length p) = p")
      case True
      then have "occurs_at t p i" using bound by (simp add: occurs_at_def)
      moreover have "rk_loop t p b m sh hm i cur = int i"
        using g True cur sh unfold by simp
      ultimately show ?thesis using before by (auto simp: first_match_def)
    next
      case f: False
      then have no: "\<not> occurs_at t p i" by (simp add: occurs_at_def)
      have before': "\<forall>s<i + 1. \<not> occurs_at t p s"
        using before no by (auto simp: less_Suc_eq)
      have f': "\<not> (sh = cur \<and> slice t i (length p) = p)" using f by simp
      show ?thesis
      proof (cases "int i < int (length t) - int (length p)")
        case True
        then have lt: "i + length p < length t" by simp
        have lp: "0 < length p" using ne by simp
        have roll: "rk_roll t (length p) b m hm i cur
                    = polynomial_hash (slice t (i + 1) (length p)) b m"
          unfolding cur by (rule rk_roll_hash [OF pos lp lt hm])
        have "first_match t p (rk_loop t p b m sh hm (i + 1) (rk_roll t (length p) b m hm i cur))"
          using g f' True pos ne sh hm roll before' by (intro "1.IH"(1)) simp_all
        then show ?thesis using g f True unfold by simp
      next
        case False
        then have ng: "\<not> rk_guard t p (i + 1)" by (simp add: rk_guard_def)
        have "first_match t p (rk_loop t p b m sh hm (i + 1) cur)"
          using g f' False pos ne sh hm ng before' by (intro "1.IH"(2)) simp_all
        then show ?thesis using g f False unfold by simp
      qed
    qed
  qed
qed

text \<open>
  Claim C3. Whenever \<open>rabin_karp_search\<close> returns a non-negative index, the window of
  pattern length that starts there equals the pattern symbol for symbol: an equal hash alone
  is never reported, the loop returns only after the direct comparison of the slice.
\<close>

theorem rabin_karp_reports_verified_match:
  assumes "rabin_karp_search text pattern = Inr r" and "0 \<le> r"
  shows "slice text (nat r) (length pattern) = pattern"
proof -
  from assms(1) obtain sh hm cur where "rk_loop text pattern 256 101 sh hm 0 cur = r"
    by (auto simp: rabin_karp_search_def Let_def split: sum.splits)
  then show ?thesis using assms(2) by (rule rk_loop_sound)
qed

theorem rabin_karp_reports_verified_match_witness:
  "rabin_karp_search [1, 1, 2] [1, 2] = Inr 1 \<and> slice [1, 1, 2] (nat 1) (length [1, 2 :: nat]) = [1, 2]"
proof -
  have e: "rabin_karp_search [1, 1, 2] [1, 2] = Inr 1" by code_simp
  from rabin_karp_reports_verified_match [OF e] e show ?thesis by simp
qed

text \<open>The multiplier of the empty pattern: the inverse of 256 modulo 101.\<close>

lemma pow_mod_inverse: "pow_mod 256 (- 1) 101 = Inr 58"
  by code_simp

text \<open>
  Claim C10. For every text, the empty one included, \<open>rabin_karp_search\<close> with the empty
  pattern returns 0 and raises nothing: \<open>pow(256, -1, 101)\<close> is the modular inverse 58,
  the hash of the pattern and the hash of the empty first window are both 0, and the first
  iteration compares two empty slices.
\<close>

theorem rabin_karp_empty_pattern:
  "rabin_karp_search text [] = Inr 0
   \<and> pow_mod 256 (int (length ([] :: str)) - 1) 101 = Inr 58
   \<and> 256 * 58 mod 101 = (1 :: int)
   \<and> polynomial_hash [] 256 101 = 0
   \<and> polynomial_hash (slice text 0 (length ([] :: str))) 256 101 = 0"
proof -
  have g: "rk_guard text [] 0" by (simp add: rk_guard_def)
  have h: "polynomial_hash [] 256 101 = 0" by (simp add: polynomial_hash_def)
  have "rk_loop text [] 256 101 0 58 0 0 = 0"
    using g by (subst rk_loop.simps) (simp add: slice_def)
  then show ?thesis
    by (simp add: rabin_karp_search_def pow_mod_inverse h slice_def)
qed




lemma rabin_karp_first_match:
  assumes "p \<noteq> []"
  shows "\<exists>r. rabin_karp_search t p = Inr r \<and> first_match t p r"
proof -
  have lp: "0 < length p" using assms by simp
  have "first_match t p (rk_loop t p 256 101 (polynomial_hash p 256 101)
          (256 ^ (length p - 1) mod 101) 0 (polynomial_hash (slice t 0 (length p)) 256 101))"
    by (rule rk_loop_first_match) (use assms in simp_all)
  then show ?thesis
    by (simp add: rabin_karp_search_def Let_def pow_mod_nonneg [OF lp])
qed




section \<open>Shift table and Boyer-Moore\<close>

lemma occurs_at_nth:
  "occurs_at t p s \<longleftrightarrow> s + length p \<le> length t \<and> (\<forall>k<length p. t ! (s + k) = p ! k)"
  by (auto simp: occurs_at_def slice_def list_eq_iff_nth_eq)

lemma shift_loop_notin:
  "c \<notin> set xs \<Longrightarrow> shift_loop len i xs table c = table c"
  by (induction xs arbitrary: i table) auto

lemma shift_loop_in:
  "c \<in> set xs \<Longrightarrow>
   \<exists>k<length xs. xs ! k = c \<and> (\<forall>k'. k < k' \<and> k' < length xs \<longrightarrow> xs ! k' \<noteq> c)
      \<and> shift_loop len i xs table c = Some (len - (i + k) - 1)"
proof (induction xs arbitrary: i table)
  case Nil
  then show ?case by simp
next
  case (Cons x rest)
  show ?case
  proof (cases "c \<in> set rest")
    case True
    from Cons.IH [OF True, of "i + 1" "table(x \<mapsto> len - i - 1)"]
    obtain k where k: "k < length rest" "rest ! k = c"
      "\<forall>k'. k < k' \<and> k' < length rest \<longrightarrow> rest ! k' \<noteq> c"
      "shift_loop len (i + 1) rest (table(x \<mapsto> len - i - 1)) c = Some (len - (i + 1 + k) - 1)"
      by blast
    have "\<forall>k'. Suc k < k' \<and> k' < length (x # rest) \<longrightarrow> (x # rest) ! k' \<noteq> c"
    proof (intro allI impI)
      fix k' assume a: "Suc k < k' \<and> k' < length (x # rest)"
      then obtain m where m: "k' = Suc m" by (cases k') auto
      with a k(3) show "(x # rest) ! k' \<noteq> c" by simp
    qed
    with k show ?thesis by (intro exI [of _ "Suc k"]) simp
  next
    case False
    with Cons.prems have cx: "c = x" by simp
    have "\<forall>k'. 0 < k' \<and> k' < length (x # rest) \<longrightarrow> (x # rest) ! k' \<noteq> c"
    proof (intro allI impI)
      fix k' assume a: "0 < k' \<and> k' < length (x # rest)"
      then obtain m where m: "k' = Suc m" by (cases k') auto
      with a False show "(x # rest) ! k' \<noteq> c" by (auto simp: in_set_conv_nth)
    qed
    moreover have "shift_loop len i (x # rest) table c = Some (len - (i + 0) - 1)"
      using False cx by (simp add: shift_loop_notin)
    ultimately show ?thesis using cx by (intro exI [of _ 0]) simp
  qed
qed

lemma build_shift_table_value:
  "p \<noteq> [] \<Longrightarrow>
   build_shift_table p
   = Inr (setdefault (shift_loop (length p) 0 (butlast p) Map.empty) (last p) (length p))"
  by (simp add: build_shift_table_def)

lemma table_before_last:
  assumes "p \<noteq> []" and "build_shift_table p = Inr tbl" and "c \<in> set (butlast p)"
  shows "\<exists>k<length p - 1. p ! k = c \<and> (\<forall>k'. k < k' \<and> k' < length p - 1 \<longrightarrow> p ! k' \<noteq> c)
           \<and> tbl c = Some (length p - 1 - k)"
proof -
  from shift_loop_in [OF assms(3), of "length p" 0 Map.empty]
  obtain k where k: "k < length (butlast p)" "butlast p ! k = c"
    "\<forall>k'. k < k' \<and> k' < length (butlast p) \<longrightarrow> butlast p ! k' \<noteq> c"
    "shift_loop (length p) 0 (butlast p) Map.empty c = Some (length p - (0 + k) - 1)"
    by blast
  have tbl: "tbl = setdefault (shift_loop (length p) 0 (butlast p) Map.empty) (last p) (length p)"
    using assms(1,2) by (simp add: build_shift_table_value)
  have "tbl c = Some (length p - 1 - k)"
    using k(4) by (auto simp: tbl setdefault_def split: option.splits)
  moreover have "p ! k = c" using k(1,2) by (simp add: nth_butlast)
  moreover have "\<forall>k'. k < k' \<and> k' < length p - 1 \<longrightarrow> p ! k' \<noteq> c"
    using k(3) by (auto simp: nth_butlast)
  ultimately show ?thesis using k(1) by auto
qed

lemma table_not_before_last:
  assumes "p \<noteq> []" and "build_shift_table p = Inr tbl" and "c \<notin> set (butlast p)"
  shows "tbl c = (if c = last p then Some (length p) else None)"
proof -
  have tbl: "tbl = setdefault (shift_loop (length p) 0 (butlast p) Map.empty) (last p) (length p)"
    using assms(1,2) by (simp add: build_shift_table_value)
  have "shift_loop (length p) 0 (butlast p) Map.empty c = None"
    using assms(3) by (simp add: shift_loop_notin)
  then show ?thesis
    by (auto simp: tbl setdefault_def split: option.splits)
qed

lemma shift_safe:
  assumes "p \<noteq> []" and "build_shift_table p = Inr tbl"
  shows "0 < table_get tbl c (length p) \<and> table_get tbl c (length p) \<le> length p
         \<and> (\<forall>e. 0 < e \<and> e < table_get tbl c (length p) \<longrightarrow> p ! (length p - 1 - e) \<noteq> c)"
proof (cases "c \<in> set (butlast p)")
  case True
  from table_before_last [OF assms True]
  obtain k where k: "k < length p - 1" "p ! k = c"
    "\<forall>k'. k < k' \<and> k' < length p - 1 \<longrightarrow> p ! k' \<noteq> c" "tbl c = Some (length p - 1 - k)"
    by blast
  have g: "table_get tbl c (length p) = length p - 1 - k" using k(4) by (simp add: table_get_def)
  have "p ! (length p - 1 - e) \<noteq> c" if "0 < e \<and> e < length p - 1 - k" for e
  proof -
    have "k < length p - 1 - e \<and> length p - 1 - e < length p - 1" using that by arith
    with k(3) show ?thesis by blast
  qed
  then show ?thesis using k(1) by (auto simp: g)
next
  case False
  have g: "table_get tbl c (length p) = length p"
    using table_not_before_last [OF assms False] by (simp add: table_get_def)
  have "p ! (length p - 1 - e) \<noteq> c" if "0 < e \<and> e < length p" for e
  proof -
    have lt: "length p - 1 - e < length (butlast p)" using that by (simp, arith)
    then have "butlast p ! (length p - 1 - e) \<in> set (butlast p)" by (rule nth_mem)
    moreover have "butlast p ! (length p - 1 - e) = p ! (length p - 1 - e)"
      using lt by (rule nth_butlast)
    ultimately show ?thesis using False by auto
  qed
  then show ?thesis using assms(1) by (auto simp: g)
qed

lemma bm_inner_result:
  "i + length p \<le> length t \<Longrightarrow> j < int (length p) \<Longrightarrow> - 1 \<le> j \<Longrightarrow>
   \<exists>j'. bm_inner t p i j = Inr j' \<and> - 1 \<le> j' \<and> j' \<le> j
        \<and> (\<forall>k. j' < int k \<and> int k \<le> j \<longrightarrow> t ! (i + k) = p ! k)
        \<and> (0 \<le> j' \<longrightarrow> t ! (i + nat j') \<noteq> p ! nat j')"
proof (induction t p i j rule: bm_inner.induct)
  case (1 t p i j)
  note unfold = bm_inner.simps [of t p i j]
  show ?case
  proof (cases "0 \<le> j")
    case False
    with "1.prems" unfold show ?thesis by auto
  next
    case nonneg: True
    with "1.prems" have range: "i + nat j < length t \<and> nat j < length p" by auto
    show ?thesis
    proof (cases "t ! (i + nat j) = p ! nat j")
      case False
      with nonneg range unfold show ?thesis by auto
    next
      case True
      from "1.IH" [OF nonneg range True] "1.prems" nonneg
      obtain j' where j': "bm_inner t p i (j - 1) = Inr j'" "- 1 \<le> j'" "j' \<le> j - 1"
        "\<forall>k. j' < int k \<and> int k \<le> j - 1 \<longrightarrow> t ! (i + k) = p ! k"
        "0 \<le> j' \<longrightarrow> t ! (i + nat j') \<noteq> p ! nat j'"
        by auto
      have "t ! (i + k) = p ! k" if "j' < int k \<and> int k \<le> j" for k
      proof (cases "int k = j")
        case True
        then have "k = nat j" by simp
        with \<open>t ! (i + nat j) = p ! nat j\<close> show ?thesis by simp
      next
        case False
        with that j'(4) show ?thesis by auto
      qed
      moreover have "bm_inner t p i j = Inr j'"
        using nonneg range True unfold j'(1) by simp
      ultimately show ?thesis using j'(2,3,5) by auto
    qed
  qed
qed

lemma bm_body_match:
  assumes "bm_guard t p i" and "occurs_at t p i"
  shows "bm_body t p tbl i = Inl (Inr (int i))"
proof -
  have b: "i + length p \<le> length t" using assms(1) by (simp add: bm_guard_def)
  from bm_inner_result [OF b, of "int (length p) - 1"]
  obtain j' where j': "bm_inner t p i (int (length p) - 1) = Inr j'" "- 1 \<le> j'"
    "j' \<le> int (length p) - 1" "0 \<le> j' \<longrightarrow> t ! (i + nat j') \<noteq> p ! nat j'"
    by auto
  have "j' < 0"
  proof (rule ccontr)
    assume "\<not> j' < 0"
    then have "0 \<le> j'" "nat j' < length p" using j'(3) by auto
    with j'(4) assms(2) show False by (auto simp: occurs_at_nth)
  qed
  then show ?thesis by (simp add: bm_body_def j'(1))
qed

lemma bm_body_mismatch:
  assumes "bm_guard t p i" and "\<not> occurs_at t p i"
  shows "bm_body t p tbl i = Inr (i + table_get tbl (t ! (i + length p - 1)) (length p))"
proof -
  have b: "i + length p \<le> length t" using assms(1) by (simp add: bm_guard_def)
  from bm_inner_result [OF b, of "int (length p) - 1"]
  obtain j' where j': "bm_inner t p i (int (length p) - 1) = Inr j'" "- 1 \<le> j'"
    "j' \<le> int (length p) - 1"
    "\<forall>k. j' < int k \<and> int k \<le> int (length p) - 1 \<longrightarrow> t ! (i + k) = p ! k"
    by auto
  have nn: "\<not> j' < 0"
  proof
    assume "j' < 0"
    with j'(4) have "\<forall>k<length p. t ! (i + k) = p ! k" by auto
    with b assms(2) show False by (simp add: occurs_at_nth)
  qed
  then have "0 < length p" using j'(3) by auto
  then have "i + length p - 1 < length t" using b by arith
  with nn show ?thesis by (simp add: bm_body_def j'(1))
qed

lemma bm_loop_first_match:
  assumes "p \<noteq> []" and "build_shift_table p = Inr tbl"
  shows "\<forall>s<i. \<not> occurs_at t p s \<Longrightarrow>
         \<exists>r. bm_loop t p tbl i = Some (Inr r) \<and> first_match t p r"
proof (induction "length t + 1 - i" arbitrary: i rule: less_induct)
  case less
  note before = less.prems
  note unfold = bm_loop.simps [of t p tbl i]
  show ?case
  proof (cases "bm_guard t p i")
    case False
    have "\<not> occurs_at t p s" for s
    proof
      assume o: "occurs_at t p s"
      then have "s + length p \<le> length t" by (rule occurs_at_bound)
      with False have "s < i" by (simp add: bm_guard_def)
      with before o show False by simp
    qed
    with False unfold show ?thesis by (simp add: first_match_def)
  next
    case g: True
    then have b: "i + length p \<le> length t" by (simp add: bm_guard_def)
    show ?thesis
    proof (cases "occurs_at t p i")
      case True
      then have "bm_loop t p tbl i = Some (Inr (int i))"
        using g unfold by (simp add: bm_body_match)
      then show ?thesis using True before by (auto simp: first_match_def)
    next
      case False
      define c where "c = t ! (i + length p - 1)"
      define d where "d = table_get tbl c (length p)"
      from shift_safe [OF assms, of c]
      have d: "0 < d" "d \<le> length p" "\<forall>e. 0 < e \<and> e < d \<longrightarrow> p ! (length p - 1 - e) \<noteq> c"
        by (simp_all add: d_def)
      have step: "bm_loop t p tbl i = bm_loop t p tbl (i + d)"
        using g unfold by (simp add: bm_body_mismatch [OF g False] c_def d_def)
      have "\<not> occurs_at t p s" if "s < i + d" for s
      proof (cases "s < i")
        case True
        with before show ?thesis by simp
      next
        case ge: False
        show ?thesis
        proof (cases "s = i")
          case True
          with False show ?thesis by simp
        next
          case ne: False
          define e where "e = s - i"
          have e: "0 < e" "e < d" "s = i + e" using ge ne that by (simp_all add: e_def)
          show ?thesis
          proof
            assume "occurs_at t p s"
            then have "\<forall>k<length p. t ! (s + k) = p ! k" by (simp add: occurs_at_nth)
            moreover have "length p - 1 - e < length p" using d(1,2) e by simp
            ultimately have "t ! (s + (length p - 1 - e)) = p ! (length p - 1 - e)" by blast
            moreover have "s + (length p - 1 - e) = i + length p - 1" using d(2) e by simp
            ultimately have "p ! (length p - 1 - e) = c" by (simp add: c_def)
            with d(3) e show False by simp
          qed
        qed
      qed
      then have "\<forall>s<i + d. \<not> occurs_at t p s" by simp
      moreover have "length t + 1 - (i + d) < length t + 1 - i" using d(1) b by simp
      ultimately have "\<exists>r. bm_loop t p tbl (i + d) = Some (Inr r) \<and> first_match t p r"
        by (rule less.hyps [rotated])
      with step show ?thesis by simp
    qed
  qed
qed

lemma boyer_moore_first_match:
  assumes "p \<noteq> []"
  shows "\<exists>r. boyer_moore_search t p = Some (Inr r) \<and> first_match t p r"
proof -
  obtain tbl where tbl: "build_shift_table p = Inr tbl"
    using assms by (simp add: build_shift_table_value)
  from bm_loop_first_match [OF assms tbl, of 0 t]
  show ?thesis by (simp add: boyer_moore_search_def tbl)
qed

text \<open>
  Claim C5. For a non-empty pattern of length \<open>m\<close>, \<open>build_shift_table\<close> maps every
  symbol that occurs before the final position to the distance \<open>m - 1 - k\<close> from its last
  such occurrence \<open>k\<close> to the pattern end; the last symbol of the pattern is mapped to
  \<open>m\<close> unless it occurs earlier; a symbol absent from the pattern has no entry, and
  \<open>boyer_moore_search\<close> then moves the window by the default \<open>m\<close>.
\<close>

theorem build_shift_table_spec:
  assumes "pattern \<noteq> []"
  shows "\<exists>table. build_shift_table pattern = Inr table
     \<and> (\<forall>c\<in>set (butlast pattern).
          \<exists>k<length pattern - 1. pattern ! k = c
             \<and> (\<forall>k'. k < k' \<and> k' < length pattern - 1 \<longrightarrow> pattern ! k' \<noteq> c)
             \<and> table c = Some (length pattern - 1 - k))
     \<and> (last pattern \<notin> set (butlast pattern) \<longrightarrow> table (last pattern) = Some (length pattern))
     \<and> (\<forall>c. c \<notin> set pattern \<longrightarrow> table c = None)
     \<and> (\<forall>text i. bm_guard text pattern i \<and> \<not> occurs_at text pattern i
            \<and> table (text ! (i + length pattern - 1)) = None
          \<longrightarrow> bm_body text pattern table i = Inr (i + length pattern))"
proof -
  obtain table where tbl: "build_shift_table pattern = Inr table"
    using assms by (simp add: build_shift_table_value)
  have a: "\<forall>c\<in>set (butlast pattern).
          \<exists>k<length pattern - 1. pattern ! k = c
             \<and> (\<forall>k'. k < k' \<and> k' < length pattern - 1 \<longrightarrow> pattern ! k' \<noteq> c)
             \<and> table c = Some (length pattern - 1 - k)"
    using table_before_last [OF assms tbl] by blast
  have b: "last pattern \<notin> set (butlast pattern) \<longrightarrow> table (last pattern) = Some (length pattern)"
    using table_not_before_last [OF assms tbl, of "last pattern"] by simp
  have c: "\<forall>c. c \<notin> set pattern \<longrightarrow> table c = None"
  proof (intro allI impI)
    fix c assume n: "c \<notin> set pattern"
    then have "c \<notin> set (butlast pattern)" by (auto dest: in_set_butlastD)
    moreover have "c \<noteq> last pattern" using n assms by auto
    ultimately show "table c = None"
      using table_not_before_last [OF assms tbl, of c] by simp
  qed
  have d: "\<forall>text i. bm_guard text pattern i \<and> \<not> occurs_at text pattern i
            \<and> table (text ! (i + length pattern - 1)) = None
          \<longrightarrow> bm_body text pattern table i = Inr (i + length pattern)"
    by (auto simp: bm_body_mismatch table_get_def)
  from tbl a b c d show ?thesis by blast
qed

theorem build_shift_table_spec_witness:
  "[1, 2, 1, 3] \<noteq> ([] :: str)
   \<and> (\<exists>table. build_shift_table [1, 2, 1, 3] = Inr table
        \<and> map table [1, 2, 3, 4] = [Some 1, Some 2, Some 4, None]
        \<and> bm_body [1, 2, 4, 4, 1, 2, 1, 3] [1, 2, 1, 3] table 0 = Inr 4)"
proof -
  have e: "(case build_shift_table [1, 2, 1, 3] of Inl _ \<Rightarrow> [] | Inr t \<Rightarrow> map t [1, 2, 3, 4])
           = [Some 1, Some 2, Some 4, None]"
    by code_simp
  have g: "bm_guard [1, 2, 4, 4, 1, 2, 1, 3] [1, 2, 1, 3] 0" by (simp add: bm_guard_def)
  have o: "\<not> occurs_at [1, 2, 4, 4, 1, 2, 1, 3] [1, 2, 1, 3] 0"
    by (simp add: occurs_at_def slice_def)
  from build_shift_table_spec [of "[1, 2, 1, 3]"]
  obtain table where t: "build_shift_table [1, 2, 1, 3] = Inr table"
    and n: "\<forall>c. c \<notin> set [1, 2, 1, 3 :: nat] \<longrightarrow> table c = None"
    and b: "\<forall>text i. bm_guard text [1, 2, 1, 3] i \<and> \<not> occurs_at text [1, 2, 1, 3] i
            \<and> table (text ! (i + length [1, 2, 1, 3 :: nat] - 1)) = None
          \<longrightarrow> bm_body text [1, 2, 1, 3] table i = Inr (i + length [1, 2, 1, 3 :: nat])"
    by blast
  have m: "map table [1, 2, 3, 4] = [Some 1, Some 2, Some 4, None]" using e t by simp
  have "table 4 = None" using n by simp
  then have "bm_body [1, 2, 4, 4, 1, 2, 1, 3] [1, 2, 1, 3] table 0 = Inr 4"
    using b [rule_format, of "[1, 2, 4, 4, 1, 2, 1, 3]" 0] g o by simp
  with t m show ?thesis by simp
qed

section \<open>Prefix table and Knuth-Morris-Pratt\<close>

lemma border_take:
  assumes "n \<le> length p"
  shows "border (take n p) k \<longleftrightarrow> prefix_border p n k"
proof (cases "k < n")
  case False
  with assms show ?thesis by (simp add: border_def prefix_border_def)
next
  case True
  have len: "length (take n p) = n" using assms by simp
  have eq: "take k (take n p) = drop (n - k) (take n p) \<longleftrightarrow> (\<forall>u<k. p ! u = p ! (n - k + u))"
    using True assms by (auto simp: list_eq_iff_nth_eq min_def)
  show ?thesis unfolding border_def prefix_border_def len using True eq by blast
qed

lemma pb_extend:
  "prefix_border p i len \<Longrightarrow> p ! i = p ! len \<Longrightarrow> prefix_border p (Suc i) (Suc len)"
  unfolding prefix_border_def
  by (auto simp: less_Suc_eq)

lemma pb_shrink:
  assumes "prefix_border p (Suc i) (Suc b)"
  shows "prefix_border p i b \<and> p ! b = p ! i"
proof -
  from assms have lt: "b < i" and eq: "\<forall>u<Suc b. p ! u = p ! (Suc i - Suc b + u)"
    by (simp_all add: prefix_border_def)
  have "p ! u = p ! (i - b + u)" if "u < b" for u using eq that by simp
  moreover have "p ! b = p ! i" using eq [rule_format, of b] lt by simp
  ultimately show ?thesis using lt by (simp add: prefix_border_def)
qed

lemma pb_trans:
  assumes "prefix_border p i len" and "prefix_border p len b"
  shows "prefix_border p i b"
proof -
  from assms have lt: "len < i" "b < len"
    and e1: "\<forall>u<len. p ! u = p ! (i - len + u)" and e2: "\<forall>u<b. p ! u = p ! (len - b + u)"
    unfolding prefix_border_def by blast+
  have "p ! u = p ! (i - b + u)" if "u < b" for u
  proof -
    have "p ! u = p ! (len - b + u)" using e2 that by simp
    also have "\<dots> = p ! (i - len + (len - b + u))" using e1 that lt by simp
    also have "i - len + (len - b + u) = i - b + u" using lt that by simp
    finally show ?thesis .
  qed
  with lt show ?thesis by (simp add: prefix_border_def)
qed

lemma pb_nested:
  assumes "prefix_border p i len" and "prefix_border p i b" and "b < len"
  shows "prefix_border p len b"
proof -
  from assms have lt: "len < i"
    and e1: "\<forall>u<len. p ! u = p ! (i - len + u)" and e2: "\<forall>u<b. p ! u = p ! (i - b + u)"
    unfolding prefix_border_def by blast+
  have "p ! u = p ! (len - b + u)" if "u < b" for u
  proof -
    have "p ! (len - b + u) = p ! (i - len + (len - b + u))" using e1 that assms(3) by simp
    also have "i - len + (len - b + u) = i - b + u" using lt that assms(3) by simp
    also have "p ! (i - b + u) = p ! u" using e2 that by simp
    finally show ?thesis by simp
  qed
  with assms(3) show ?thesis by (simp add: prefix_border_def)
qed

lemma pb_zero: "0 < n \<Longrightarrow> prefix_border p n 0"
  by (simp add: prefix_border_def)

lemma pb_less: "prefix_border p n k \<Longrightarrow> k < n"
  by (simp add: prefix_border_def)

lemma lps_inv_init:
  assumes "p \<noteq> []"
  shows "lps_inv p (replicate (length p) 0) 0 1"
proof -
  have "b = 0" if "prefix_border p (Suc 0) b" for b using pb_less [OF that] by simp
  then show ?thesis using assms
    by (auto simp: lps_inv_def pb_zero Suc_le_eq)
qed

lemma lps_body_step:
  assumes inv: "lps_inv p lps len i" and g: "i < length p"
  shows "\<exists>lps' len' i'. lps_body p lps len i = Inr (lps', len', i') \<and> lps_inv p lps' len' i'
           \<and> 2 * (length p - i') + len' < 2 * (length p - i) + len"
proof -
  from inv have ll: "length lps = length p" and i1: "1 \<le> i" and pb: "prefix_border p i len"
    and tab: "\<forall>k<i. prefix_border p (Suc k) (lps ! k)
               \<and> (\<forall>b. prefix_border p (Suc k) b \<longrightarrow> b \<le> lps ! k)"
    and ext: "\<forall>b. prefix_border p i b \<and> len < b \<longrightarrow> p ! b \<noteq> p ! i"
    using g unfolding lps_inv_def by blast+
  have li: "len < i" using pb by (rule pb_less)
  show ?thesis
  proof (cases "p ! i = p ! len")
    case True
    have body: "lps_body p lps len i = Inr (lps[i := len + 1], len + 1, i + 1)"
      using True li g ll by (simp add: lps_body_def)
    have top: "b \<le> Suc len" if "prefix_border p (Suc i) b" for b
    proof (cases b)
      case 0
      then show ?thesis by simp
    next
      case (Suc b')
      with that pb_shrink [of p i b'] have "prefix_border p i b'" "p ! b' = p ! i" by simp_all
      with ext have "\<not> len < b'" by blast
      with Suc show ?thesis by simp
    qed
    have new: "prefix_border p (Suc i) (Suc len)" using pb True by (rule pb_extend)
    have tab': "\<forall>k<Suc i. prefix_border p (Suc k) (lps[i := Suc len] ! k)
               \<and> (\<forall>b. prefix_border p (Suc k) b \<longrightarrow> b \<le> lps[i := Suc len] ! k)"
    proof (intro allI impI)
      fix k assume "k < Suc i"
      show "prefix_border p (Suc k) (lps[i := Suc len] ! k)
               \<and> (\<forall>b. prefix_border p (Suc k) b \<longrightarrow> b \<le> lps[i := Suc len] ! k)"
      proof (cases "k = i")
        case True
        then show ?thesis using new top g ll by simp
      next
        case False
        with \<open>k < Suc i\<close> have "k < i" by simp
        with tab False show ?thesis by simp
      qed
    qed
    have ext': "\<forall>b. prefix_border p (Suc i) b \<and> Suc len < b \<longrightarrow> p ! b \<noteq> p ! Suc i"
      using top by (auto dest: leD)
    have "lps_inv p (lps[i := len + 1]) (len + 1) (i + 1)"
      unfolding lps_inv_def using ll g new tab' ext' by simp
    with body g show ?thesis by simp
  next
    case False
    show ?thesis
    proof (cases "len = 0")
      case True
      have body: "lps_body p lps len i = Inr (lps[i := 0], len, i + 1)"
        using False True g ll by (auto simp: lps_body_def)
      have top: "b = 0" if "prefix_border p (Suc i) b" for b
      proof (cases b)
        case 0
        then show ?thesis by simp
      next
        case (Suc b')
        with that pb_shrink [of p i b'] have b': "prefix_border p i b'" "p ! b' = p ! i" by simp_all
        with ext have "\<not> len < b'" by blast
        with True have "b' = 0" by simp
        with b'(2) False True show ?thesis by simp
      qed
      have tab': "\<forall>k<Suc i. prefix_border p (Suc k) (lps[i := 0] ! k)
               \<and> (\<forall>b. prefix_border p (Suc k) b \<longrightarrow> b \<le> lps[i := 0] ! k)"
      proof (intro allI impI)
        fix k assume "k < Suc i"
        show "prefix_border p (Suc k) (lps[i := 0] ! k)
               \<and> (\<forall>b. prefix_border p (Suc k) b \<longrightarrow> b \<le> lps[i := 0] ! k)"
        proof (cases "k = i")
          case True
          then show ?thesis using top g ll by (auto simp: pb_zero)
        next
          case False
          with \<open>k < Suc i\<close> have "k < i" by simp
          with tab False show ?thesis by simp
        qed
      qed
      have ext': "\<forall>b. prefix_border p (Suc i) b \<and> 0 < b \<longrightarrow> p ! b \<noteq> p ! Suc i"
        using top by auto
      have "lps_inv p (lps[i := 0]) len (i + 1)"
        unfolding lps_inv_def using ll g tab' ext' True by (simp add: pb_zero)
      with body g show ?thesis by simp
    next
      case pos: False
      define len' where "len' = lps ! (len - 1)"
      have body: "lps_body p lps len i = Inr (lps, len', i)"
        using False pos g ll li by (simp add: lps_body_def len'_def)
      have "len - 1 < i" using li by simp
      with tab have "prefix_border p (Suc (len - 1)) len'
               \<and> (\<forall>b. prefix_border p (Suc (len - 1)) b \<longrightarrow> b \<le> len')"
        unfolding len'_def by blast
      then have inner: "prefix_border p len len'" and top: "\<forall>b. prefix_border p len b \<longrightarrow> b \<le> len'"
        using pos by simp_all
      have pb': "prefix_border p i len'" using pb inner by (rule pb_trans)
      have less: "len' < len" using inner by (rule pb_less)
      have ext': "p ! b \<noteq> p ! i" if "prefix_border p i b \<and> len' < b" for b
      proof (cases "len < b")
        case True
        with ext that show ?thesis by blast
      next
        case nl: False
        show ?thesis
        proof (cases "b = len")
          case True
          with False show ?thesis by simp
        next
          case ne: False
          with nl have "b < len" by simp
          with pb that have "prefix_border p len b" by (blast intro: pb_nested)
          with top that show ?thesis by auto
        qed
      qed
      have "lps_inv p lps len' i"
        unfolding lps_inv_def using ll i1 g pb' tab ext' by auto
      with body less show ?thesis by simp
    qed
  qed
qed

lemma lps_loop_correct:
  "lps_inv p lps len i \<Longrightarrow>
   \<exists>r. lps_loop p lps len i = Some (Inr r) \<and> length r = length p
      \<and> (\<forall>k<length p. prefix_border p (Suc k) (r ! k)
             \<and> (\<forall>b. prefix_border p (Suc k) b \<longrightarrow> b \<le> r ! k))"
proof (induction "2 * (length p - i) + len" arbitrary: lps len i rule: less_induct)
  case less
  note unfold = lps_loop.simps [of p lps len i]
  show ?case
  proof (cases "i < length p")
    case False
    with less.prems have "i = length p" by (simp add: lps_inv_def)
    with less.prems False unfold show ?thesis by (simp add: lps_inv_def)
  next
    case True
    from lps_body_step [OF less.prems True]
    obtain lps' len' i' where s: "lps_body p lps len i = Inr (lps', len', i')"
      "lps_inv p lps' len' i'" "2 * (length p - i') + len' < 2 * (length p - i) + len"
      by blast
    from less.hyps [OF s(3) s(2)] True s(1) unfold show ?thesis by simp
  qed
qed

lemma compute_lps_table:
  "\<exists>r. compute_lps p = Some (Inr r) \<and> length r = length p
      \<and> (\<forall>k<length p. prefix_border p (Suc k) (r ! k)
             \<and> (\<forall>b. prefix_border p (Suc k) b \<longrightarrow> b \<le> r ! k))"
proof (cases "p = []")
  case True
  then show ?thesis by (simp add: compute_lps_def lps_loop.simps)
next
  case False
  then show ?thesis
    unfolding compute_lps_def by (intro lps_loop_correct lps_inv_init)
qed

lemma kmp_body_cursor:
  "kmp_body t p lps i j = Inr (i', j') \<Longrightarrow> i \<le> i'"
  by (auto simp: kmp_body_def split: if_splits)

lemma kmp_body_step:
  assumes tab: "lps_table p lps" and inv: "kmp_inv t p i j" and g: "i < length t"
  shows "(\<exists>r. kmp_body t p lps i j = Inl (Inr r) \<and> first_match t p r)
         \<or> (\<exists>i' j'. kmp_body t p lps i j = Inr (i', j') \<and> kmp_inv t p i' j'
               \<and> 2 * (length t - i') + j' < 2 * (length t - i) + j)"
proof -
  from inv have ji: "j \<le> i" and jm: "j < length p"
    and pre: "\<forall>k<j. t ! (i - j + k) = p ! k" and before: "\<forall>s<i - j. \<not> occurs_at t p s"
    unfolding kmp_inv_def by blast+
  show ?thesis
  proof (cases "p ! j = t ! i")
    case True
    have all: "\<forall>k<Suc j. t ! (i - j + k) = p ! k"
      using pre True ji by (auto simp: less_Suc_eq)
    show ?thesis
    proof (cases "j + 1 = length p")
      case last: True
      have body: "kmp_body t p lps i j = Inl (Inr (int (i - j)))"
        using True last jm ji by (simp add: kmp_body_def)
      have "occurs_at t p (i - j)"
        using all last g ji by (simp add: occurs_at_nth)
      with before have "first_match t p (int (i - j))"
        by (auto simp: first_match_def)
      with body show ?thesis by blast
    next
      case more: False
      have body: "kmp_body t p lps i j = Inr (i + 1, j + 1)"
        using True more jm by (simp add: kmp_body_def)
      have "kmp_inv t p (i + 1) (j + 1)"
        unfolding kmp_inv_def using ji g jm more all before by auto
      with body g show ?thesis by auto
    qed
  next
    case False
    show ?thesis
    proof (cases "j = 0")
      case True
      have body: "kmp_body t p lps i j = Inr (i + 1, j)"
        using False True jm by (simp add: kmp_body_def)
      have "\<not> occurs_at t p i"
        using False True jm by (auto simp: occurs_at_nth)
      with before True have "\<forall>s<i + 1. \<not> occurs_at t p s"
        by (auto simp: less_Suc_eq)
      then have "kmp_inv t p (i + 1) j"
        unfolding kmp_inv_def using True g jm by simp
      with body g show ?thesis by auto
    next
      case pos: False
      define j' where "j' = lps ! (j - 1)"
      have ll: "length lps = length p" using tab by (simp add: lps_table_def)
      have body: "kmp_body t p lps i j = Inr (i, j')"
        using False pos jm ll by (simp add: kmp_body_def j'_def)
      have "j - 1 < length p" using jm by simp
      with tab have "prefix_border p (Suc (j - 1)) j'
           \<and> (\<forall>b. prefix_border p (Suc (j - 1)) b \<longrightarrow> b \<le> j')"
        unfolding lps_table_def j'_def by blast
      then have pb: "prefix_border p j j'" and top: "\<forall>b. prefix_border p j b \<longrightarrow> b \<le> j'"
        using pos by simp_all
      have less: "j' < j" using pb by (rule pb_less)
      have eq: "\<forall>u<j'. p ! u = p ! (j - j' + u)" using pb by (simp add: prefix_border_def)
      have pre': "t ! (i - j' + k) = p ! k" if "k < j'" for k
      proof -
        have "p ! k = p ! (j - j' + k)" using eq that by simp
        also have "\<dots> = t ! (i - j + (j - j' + k))"
        proof -
          have "j - j' + k < j" using that less by simp
          with pre show ?thesis by (simp only:)
        qed
        also have "i - j + (j - j' + k) = i - j' + k" using ji less by simp
        finally show ?thesis by simp
      qed
      have before': "\<not> occurs_at t p s" if "s < i - j'" for s
      proof (cases "s < i - j")
        case True
        with before show ?thesis by simp
      next
        case ge: False
        show ?thesis
        proof
          assume o: "occurs_at t p s"
          then have m: "\<forall>k<length p. t ! (s + k) = p ! k" by (simp add: occurs_at_nth)
          define b where "b = i - s"
          have b: "j' < b" "b \<le> j" "s = i - b" "b \<le> i" using ge that ji by (auto simp: b_def)
          show False
          proof (cases "b = j")
            case True
            with m jm b have "t ! i = p ! j" using ji by auto
            with False show False by simp
          next
            case ne: False
            with b have bj: "b < j" by simp
            have "p ! u = p ! (j - b + u)" if "u < b" for u
            proof -
              have "p ! u = t ! (s + u)" using m that bj jm by simp
              also have "s + u = i - j + (j - b + u)" using b bj ji that by simp
              also have "t ! (i - j + (j - b + u)) = p ! (j - b + u)"
              proof -
                have "j - b + u < j" using that bj by simp
                with pre show ?thesis by (simp only:)
              qed
              finally show ?thesis .
            qed
            with bj have "prefix_border p j b" by (simp add: prefix_border_def)
            with top b show False by auto
          qed
        qed
      qed
      have "kmp_inv t p i j'"
        unfolding kmp_inv_def using ji less g jm pre' before' by auto
      with body less show ?thesis by auto
    qed
  qed
qed

lemma kmp_loop_correct:
  assumes "lps_table p lps"
  shows "kmp_inv t p i j \<Longrightarrow> \<exists>r. kmp_loop t p lps i j = Some (Inr r) \<and> first_match t p r"
proof (induction "2 * (length t - i) + j" arbitrary: i j rule: less_induct)
  case less
  note unfold = kmp_loop.simps [of t p lps i j]
  show ?case
  proof (cases "i < length t")
    case False
    from less.prems have ji: "j \<le> i" "i \<le> length t" "j < length p"
      and before: "\<forall>s<i - j. \<not> occurs_at t p s"
      unfolding kmp_inv_def by blast+
    have "\<not> occurs_at t p s" for s
    proof
      assume o: "occurs_at t p s"
      then have "s + length p \<le> length t" by (rule occurs_at_bound)
      with False ji have "s < i - j" by simp
      with before o show False by simp
    qed
    with False unfold show ?thesis by (simp add: first_match_def kmp_guard_def)
  next
    case True
    from kmp_body_step [OF assms less.prems True]
    show ?thesis
    proof
      assume "\<exists>r. kmp_body t p lps i j = Inl (Inr r) \<and> first_match t p r"
      with True unfold show ?thesis by (auto simp: kmp_guard_def)
    next
      assume "\<exists>i' j'. kmp_body t p lps i j = Inr (i', j') \<and> kmp_inv t p i' j'
               \<and> 2 * (length t - i') + j' < 2 * (length t - i) + j"
      then obtain i' j' where s: "kmp_body t p lps i j = Inr (i', j')" "kmp_inv t p i' j'"
        "2 * (length t - i') + j' < 2 * (length t - i) + j"
        by blast
      from less.hyps [OF s(3) s(2)] True s(1) unfold show ?thesis by (simp add: kmp_guard_def)
    qed
  qed
qed

lemma kmp_first_match:
  assumes "p \<noteq> []"
  shows "\<exists>r. kmp_search t p = Some (Inr r) \<and> first_match t p r"
proof -
  from compute_lps_table [of p]
  obtain lps where l: "compute_lps p = Some (Inr lps)" and tab: "lps_table p lps"
    unfolding lps_table_def by blast
  have "kmp_inv t p 0 0" using assms by (simp add: kmp_inv_def)
  from kmp_loop_correct [OF tab this] l show ?thesis by (simp add: kmp_search_def)
qed

lemma first_match_unique:
  assumes "first_match t p r" and "first_match t p r'"
  shows "r = r'"
proof -
  have "s = s'" if "occurs_at t p s" "\<forall>u<s. \<not> occurs_at t p u"
      "occurs_at t p s'" "\<forall>u<s'. \<not> occurs_at t p u" for s s'
    using that by (meson linorder_neqE_nat)
  with assms show ?thesis unfolding first_match_def by auto
qed

text \<open>
  Claim C4. For every pattern of length \<open>m\<close>, \<open>compute_lps\<close> returns a table of exactly
  \<open>m\<close> non-negative integers; entry \<open>i\<close> is the length of the longest proper prefix of
  \<open>pattern[0..i]\<close> that is also a suffix of it, and lies between 0 and \<open>i\<close>; for the
  empty pattern the table is empty.
\<close>

theorem compute_lps_spec:
  "\<exists>lps. compute_lps pattern = Some (Inr lps) \<and> length lps = length pattern
     \<and> (\<forall>i<length pattern.
           longest_border (take (Suc i) pattern) (lps ! i) \<and> 0 \<le> lps ! i \<and> lps ! i \<le> i)
     \<and> (pattern = [] \<longrightarrow> lps = [])"
proof -
  from compute_lps_table [of pattern]
  obtain lps where l: "compute_lps pattern = Some (Inr lps)" "length lps = length pattern"
    and tab: "\<forall>k<length pattern. prefix_border pattern (Suc k) (lps ! k)
             \<and> (\<forall>b. prefix_border pattern (Suc k) b \<longrightarrow> b \<le> lps ! k)"
    by blast
  have "longest_border (take (Suc i) pattern) (lps ! i) \<and> 0 \<le> lps ! i \<and> lps ! i \<le> i"
    if "i < length pattern" for i
  proof -
    have n: "Suc i \<le> length pattern" using that by simp
    from tab that have pb: "prefix_border pattern (Suc i) (lps ! i)"
      and top: "\<forall>b. prefix_border pattern (Suc i) b \<longrightarrow> b \<le> lps ! i"
      by blast+
    have "lps ! i < Suc i" using pb by (rule pb_less)
    then show ?thesis
      using pb top by (simp add: longest_border_def border_take [OF n])
  qed
  with l show ?thesis by auto
qed

theorem compute_lps_spec_witness:
  "(3 :: nat) < length [1, 2, 1, 2, 3 :: nat]
   \<and> compute_lps [1, 2, 1, 2, 3] = Some (Inr [0, 0, 1, 2, 0])
   \<and> longest_border (take (Suc 3) [1, 2, 1, 2, 3]) ([0, 0, 1, 2, 0] ! 3)"
proof -
  have e: "compute_lps [1, 2, 1, 2, 3] = Some (Inr [0, 0, 1, 2, 0])" by code_simp
  from compute_lps_spec [of "[1, 2, 1, 2, 3]"] e
  have "\<forall>i<length [1, 2, 1, 2, 3 :: nat].
          longest_border (take (Suc i) [1, 2, 1, 2, 3]) ([0, 0, 1, 2, 0] ! i)"
    by auto
  then have "longest_border (take (Suc 3) [1, 2, 1, 2, 3]) ([0, 0, 1, 2, 0] ! 3)"
    by (rule allE [of _ 3]) simp
  with e show ?thesis by simp
qed

lemma kmp_body_measure:
  assumes "lps_table p lps" and "kmp_guard t i" and "kmp_body t p lps i j = Inr (i', j')"
  shows "2 * (length t - i') + j' < 2 * (length t - i) + j"
proof -
  have "lps ! (j - 1) < j" if "j \<noteq> 0" "j < length p"
  proof -
    have "j - 1 < length p" using that by simp
    with assms(1) have "prefix_border p (Suc (j - 1)) (lps ! (j - 1))"
      unfolding lps_table_def by blast
    then have "lps ! (j - 1) < Suc (j - 1)" by (rule pb_less)
    with that show ?thesis by simp
  qed
  with assms(2,3) show ?thesis
    by (auto simp: kmp_body_def kmp_guard_def split: if_splits)
qed

text \<open>
  Claim C9. The loop of \<open>compute_lps\<close> terminates for every pattern. For every text and
  every non-empty pattern the scan loop of \<open>kmp_search\<close> terminates with a result; in
  every iteration that goes on, the text cursor \<open>i\<close> does not move backward and the measure
  \<open>2 * (N - i) + j\<close> decreases (the fallback \<open>j = lps[j - 1]\<close> lowers \<open>j\<close> and leaves
  \<open>i\<close> alone).
\<close>

theorem kmp_terminates:
  "\<exists>lps. compute_lps pattern = Some (Inr lps)
     \<and> (pattern \<noteq> [] \<longrightarrow>
          (\<exists>r. kmp_loop text pattern lps 0 0 = Some (Inr r))
          \<and> (\<exists>r. kmp_search text pattern = Some (Inr r)))
     \<and> (\<forall>i j i' j'. kmp_guard text i \<and> kmp_body text pattern lps i j = Inr (i', j') \<longrightarrow>
          i \<le> i' \<and> 2 * (length text - i') + j' < 2 * (length text - i) + j)"
proof -
  from compute_lps_table [of pattern]
  obtain lps where l: "compute_lps pattern = Some (Inr lps)" and tab: "lps_table pattern lps"
    unfolding lps_table_def by blast
  have a: "(\<exists>r. kmp_loop text pattern lps 0 0 = Some (Inr r))
          \<and> (\<exists>r. kmp_search text pattern = Some (Inr r))" if "pattern \<noteq> []"
  proof -
    have "kmp_inv text pattern 0 0" using that by (simp add: kmp_inv_def)
    from kmp_loop_correct [OF tab this] l show ?thesis by (auto simp: kmp_search_def)
  qed
  have b: "\<forall>i j i' j'. kmp_guard text i \<and> kmp_body text pattern lps i j = Inr (i', j') \<longrightarrow>
          i \<le> i' \<and> 2 * (length text - i') + j' < 2 * (length text - i) + j"
    using kmp_body_cursor kmp_body_measure [OF tab] by blast
  from l a b show ?thesis by blast
qed

theorem kmp_terminates_witness:
  "[1, 2] \<noteq> ([] :: str) \<and> kmp_guard [1, 1, 2] 1
   \<and> compute_lps [1, 2] = Some (Inr [0, 0])
   \<and> kmp_body [1, 1, 2] [1, 2] [0, 0] 1 1 = Inr (1, 0)
   \<and> (\<exists>r. kmp_search [1, 1, 2] [1, 2] = Some (Inr r))
   \<and> 2 * (length [1, 1, 2 :: nat] - 1) + 0 < 2 * (length [1, 1, 2 :: nat] - 1) + (1 :: nat)"
proof -
  have e: "compute_lps [1, 2] = Some (Inr [0, 0])" by code_simp
  have g: "kmp_guard [1, 1, 2] 1" by (simp add: kmp_guard_def)
  have b: "kmp_body [1, 1, 2] [1, 2] [0, 0] 1 1 = Inr (1, 0)" by (simp add: kmp_body_def)
  from kmp_terminates [of "[1, 2]" "[1, 1, 2]"] e
  have "\<exists>r. kmp_search [1, 1, 2] [1, 2] = Some (Inr r)" by auto
  with e g b show ?thesis by simp
qed

section \<open>The three matchers together\<close>

text \<open>
  Claim C2. For every text and every non-empty pattern, each of \<open>kmp_search\<close>,
  \<open>boyer_moore_search\<close> and \<open>rabin_karp_search\<close> returns the zero-based index of the first
  occurrence of the pattern in the text when there is one, and \<open>-1\<close> when there is none.
\<close>

theorem matchers_first_occurrence:
  assumes "pattern \<noteq> []"
  shows "\<exists>r. first_match text pattern r
           \<and> kmp_search text pattern = Some (Inr r)
           \<and> boyer_moore_search text pattern = Some (Inr r)
           \<and> rabin_karp_search text pattern = Inr r"
proof -
  from kmp_first_match [OF assms, of "text"]
  obtain r where k: "kmp_search text pattern = Some (Inr r)" "first_match text pattern r" by blast
  from boyer_moore_first_match [OF assms, of "text"]
  obtain r' where b: "boyer_moore_search text pattern = Some (Inr r')" "first_match text pattern r'"
    by blast
  from rabin_karp_first_match [OF assms, of "text"]
  obtain r'' where h: "rabin_karp_search text pattern = Inr r''" "first_match text pattern r''"
    by blast
  have "r' = r" "r'' = r" using k(2) b(2) h(2) by (auto intro: first_match_unique)
  with k b h show ?thesis by blast
qed

theorem matchers_first_occurrence_witness:
  "[1, 2] \<noteq> ([] :: str) \<and> first_match [1, 1, 2, 1, 2] [1, 2] 1
   \<and> kmp_search [1, 1, 2, 1, 2] [1, 2] = Some (Inr 1)
   \<and> boyer_moore_search [1, 1, 2, 1, 2] [1, 2] = Some (Inr 1)
   \<and> rabin_karp_search [1, 1, 2, 1, 2] [1, 2] = Inr 1
   \<and> first_match [1, 1, 2] [3] (- 1)
   \<and> kmp_search [1, 1, 2] [3] = Some (Inr (- 1))"
proof -
  have e: "kmp_search [1, 1, 2, 1, 2] [1, 2] = Some (Inr 1)" by code_simp
  have f: "kmp_search [1, 1, 2] [3] = Some (Inr (- 1))" by code_simp
  from matchers_first_occurrence [of "[1, 2]" "[1, 1, 2, 1, 2]"] e
  have a: "first_match [1, 1, 2, 1, 2] [1, 2] 1
           \<and> boyer_moore_search [1, 1, 2, 1, 2] [1, 2] = Some (Inr 1)
           \<and> rabin_karp_search [1, 1, 2, 1, 2] [1, 2] = Inr 1"
    by auto
  from matchers_first_occurrence [of "[3]" "[1, 1, 2]"] f
  have b: "first_match [1, 1, 2] [3] (- 1)" by auto
  from a b e f show ?thesis by simp
qed

text \<open>
  Claim C7, as amended. For a pattern longer than the text all three matchers return
  \<open>-1\<close> and raise nothing; \<open>boyer_moore_search\<close> and \<open>rabin_karp_search\<close> do so without
  one iteration of their scan loops, while \<open>kmp_search\<close> enters its scan loop exactly when
  the text is non-empty.
\<close>

theorem longer_pattern_not_found:
  assumes "length text < length pattern"
  shows "kmp_search text pattern = Some (Inr (- 1))
         \<and> boyer_moore_search text pattern = Some (Inr (- 1))
         \<and> rabin_karp_search text pattern = Inr (- 1)
         \<and> \<not> bm_guard text pattern 0 \<and> \<not> rk_guard text pattern 0
         \<and> (kmp_guard text 0 \<longleftrightarrow> text \<noteq> [])"
proof -
  have ne: "pattern \<noteq> []" using assms by auto
  have none: "\<not> occurs_at text pattern s" for s
    using assms by (auto dest: occurs_at_bound)
  have r: "r = - 1" if "first_match text pattern r" for r
    using that none by (simp add: first_match_def)
  from kmp_first_match [OF ne, of "text"] r
  have k: "kmp_search text pattern = Some (Inr (- 1))" by auto
  from boyer_moore_first_match [OF ne, of "text"] r
  have b: "boyer_moore_search text pattern = Some (Inr (- 1))" by auto
  from rabin_karp_first_match [OF ne, of "text"] r
  have h: "rabin_karp_search text pattern = Inr (- 1)" by auto
  from k b h assms show ?thesis
    by (simp add: bm_guard_def rk_guard_def kmp_guard_def)
qed

theorem longer_pattern_not_found_witness:
  "length [97 :: nat] < length [97, 98 :: nat]
   \<and> kmp_search [97] [97, 98] = Some (Inr (- 1))
   \<and> boyer_moore_search [97] [97, 98] = Some (Inr (- 1))
   \<and> rabin_karp_search [97] [97, 98] = Inr (- 1)
   \<and> \<not> bm_guard [97] [97, 98] 0 \<and> \<not> rk_guard [97] [97, 98] 0"
  using longer_pattern_not_found [of "[97]" "[97, 98]"] by simp

text \<open>
  Claim C7 as stated fails: on the text \<open>"a"\<close> and the pattern \<open>"ab"\<close> the scan loop of
  \<open>kmp_search\<close> is entered and runs an iteration that compares \<open>pattern[0]\<close> with
  \<open>main_string[0]\<close> before the search returns \<open>-1\<close>.
\<close>

theorem kmp_scans_shorter_text:
  "length [97 :: nat] < length [97, 98 :: nat]
   \<and> kmp_guard [97] 0
   \<and> compute_lps [97, 98] = Some (Inr [0, 0])
   \<and> kmp_body [97] [97, 98] [0, 0] 0 0 = Inr (1, 1)
   \<and> kmp_search [97] [97, 98] = Some (Inr (- 1))"
proof -
  have "compute_lps [97, 98] = Some (Inr [0, 0])" by code_simp
  moreover have "kmp_search [97] [97, 98] = Some (Inr (- 1))" by code_simp
  ultimately show ?thesis by (simp add: kmp_guard_def kmp_body_def)
qed

text \<open>
  Claim C8 on the code: on the text \<open>"abc"\<close> with the empty pattern, \<open>kmp_search\<close> raises
  \<open>IndexError\<close> at \<open>pattern[0]\<close>, \<open>boyer_moore_search\<close> raises \<open>IndexError\<close> at
  \<open>pattern[-1]\<close> in \<open>build_shift_table\<close>, and only \<open>rabin_karp_search\<close> returns 0.
\<close>

theorem empty_pattern_raises:
  "kmp_search [97, 98, 99] [] = Some (Inl IndexError)
   \<and> boyer_moore_search [97, 98, 99] [] = Some (Inl IndexError)
   \<and> rabin_karp_search [97, 98, 99] [] = Inr 0"
proof -
  have "kmp_search [97, 98, 99] [] = Some (Inl IndexError)" by code_simp
  moreover have "boyer_moore_search [97, 98, 99] [] = Some (Inl IndexError)" by code_simp
  moreover have "rabin_karp_search [97, 98, 99] [] = Inr 0" by code_simp
  ultimately show ?thesis by simp
qed

text \<open>
  Claim C1 on the code: on the empty text with the empty pattern the three matchers give
  three different outcomes, \<open>-1\<close>, \<open>IndexError\<close> and \<open>0\<close>.
\<close>

theorem matchers_disagree_on_empty_pattern:
  "kmp_search [] [] = Some (Inr (- 1))
   \<and> boyer_moore_search [] [] = Some (Inl IndexError)
   \<and> rabin_karp_search [] [] = Inr 0"
proof -
  have "kmp_search [] [] = Some (Inr (- 1))" by code_simp
  moreover have "boyer_moore_search [] [] = Some (Inl IndexError)" by code_simp
  moreover have "rabin_karp_search [] [] = Inr 0" by code_simp
  ultimately show ?thesis by simp
qed

end
